theory Spec2Isabelle
  imports Complex_Main "HOL-Library.Word"
begin

section \<open>Python values used by app.py\<close>

text \<open>
  A Python \<open>str\<close> is modelled as a \<open>string\<close>, one \<open>char\<close> per code point (code points
  below 256); Python integers are \<open>int\<close>; the duration read from the container, a finite
  float, is a \<open>real\<close>. Every exception of the source that a modelled function can raise
  is a constructor of \<open>error\<close>, and a function that can raise returns \<open>error + 'a\<close>.
\<close>

datatype error =
    ValueError
  | OSError
  | ProbeError
  | CalledProcessError "string list"
  | IsADirectoryError string
  | ServiceError string

text \<open>\<open>int(x)\<close> on a finite float truncates towards zero.\<close>

definition py_int :: "real \<Rightarrow> int" where
  "py_int x = (if 0 \<le> x then \<lfloor>x\<rfloor> else \<lceil>x\<rceil>)"

text \<open>
  \<open>range(start, stop, step)\<close>: \<open>range_from\<close> lists the elements for a non-zero step,
  upwards while below \<open>stop\<close>, downwards while above it; a zero step raises ValueError.
\<close>

function range_from :: "int \<Rightarrow> int \<Rightarrow> int \<Rightarrow> int list" where
  "range_from i stop step =
     (if 0 < step \<and> i < stop then i # range_from (i + step) stop step
      else if step < 0 \<and> stop < i then i # range_from (i + step) stop step
      else [])"
  by pat_completeness auto
termination
  by (relation "measure (\<lambda>(i, stop, step). nat (if 0 < step then stop - i else i - stop))") auto

declare range_from.simps [simp del]

definition py_range :: "int \<Rightarrow> int \<Rightarrow> int \<Rightarrow> error + int list" where
  "py_range start stop step =
     (if step = 0 then Inl ValueError else Inr (range_from start stop step))"

subsection \<open>Decimal formatting\<close>

definition digit_char :: "nat \<Rightarrow> char" where
  "digit_char d = ''0123456789'' ! d"

text \<open>The decimal digits of a natural number, most significant first.\<close>

fun digits :: "nat \<Rightarrow> string" where
  "digits n = (if n < 10 then [digit_char n] else digits (n div 10) @ [digit_char (n mod 10)])"

declare digits.simps [simp del]

text \<open>\<open>str(z)\<close> for an integer.\<close>

definition py_str :: "int \<Rightarrow> string" where
  "py_str z = (if z < 0 then CHR ''-'' # digits (nat (- z)) else digits (nat z))"

text \<open>The format \<open>{i:04d}\<close> for \<open>i \<ge> 0\<close>: decimal, padded with zeros to four characters.\<close>

definition pad4 :: "nat \<Rightarrow> string" where
  "pad4 i = replicate (4 - length (digits i)) CHR ''0'' @ digits i"

subsection \<open>Paths\<close>

text \<open>\<open>os.path.join(a, b)\<close> of posixpath, for two components.\<close>

definition path_join :: "string \<Rightarrow> string \<Rightarrow> string" where
  "path_join a b =
     (if b \<noteq> [] \<and> hd b = CHR ''/'' then b
      else if a = [] \<or> last a = CHR ''/'' then a @ b
      else a @ ''/'' @ b)"

text \<open>\<open>os.path.basename(p)\<close> of posixpath: what follows the last slash.\<close>

definition basename :: "string \<Rightarrow> string" where
  "basename p = rev (takeWhile (\<lambda>c. c \<noteq> CHR ''/'') (rev p))"

section \<open>Media extractor: extract_frames\<close>

text \<open>
  The collaborators of \<open>extract_frames\<close>: \<open>os.makedirs(p, exist_ok=True)\<close> (whether it
  succeeds, OSError otherwise), \<open>get_video_duration\<close> (the probed duration, \<open>None\<close> when
  the probe or the parsing of its output raises, ProbeError in the model) and
  \<open>subprocess.run(argv, check=True)\<close> (whether the command exits with status 0,
  CalledProcessError otherwise).
\<close>

record world =
  makedirs :: "string \<Rightarrow> bool"
  get_video_duration :: "string \<Rightarrow> real option"
  run_ok :: "string list \<Rightarrow> bool"

record frame =
  index :: nat
  timestamp :: int
  filename :: string
  path :: string

text \<open>
  Lines 91 to 93: the timestamps are \<open>range(0, int(duration), interval)\<close>, and
  \<open>int(duration) - 1\<close> is appended when \<open>int(duration)\<close> is not among them.
\<close>

definition timestamps_of :: "real \<Rightarrow> int \<Rightarrow> error + int list" where
  "timestamps_of duration interval =
     (case py_range 0 (py_int duration) interval of
        Inl e \<Rightarrow> Inl e
      | Inr ts \<Rightarrow>
          Inr (if py_int duration \<notin> set ts then ts @ [py_int duration - 1] else ts))"

definition frame_filename :: "nat \<Rightarrow> int \<Rightarrow> string" where
  "frame_filename i ts = ''frame_'' @ pad4 i @ ''_'' @ py_str ts @ ''s.jpg''"

text \<open>The command line of one frame extraction (lines 99 and 100).\<close>

definition frame_command :: "string \<Rightarrow> int \<Rightarrow> string \<Rightarrow> string list" where
  "frame_command video_path ts frame_path =
     [''ffmpeg'', ''-i'', video_path, ''-ss'', py_str ts,
      ''-frames:v'', ''1'', ''-q:v'', ''2'', ''-y'', frame_path]"

text \<open>
  The loop over \<open>enumerate(timestamps)\<close>, from index \<open>i\<close>: the first command that fails
  raises CalledProcessError and no frame list is returned.
\<close>

fun extract_loop :: "world \<Rightarrow> string \<Rightarrow> string \<Rightarrow> nat \<Rightarrow> int list \<Rightarrow> error + frame list" where
  "extract_loop w video_path frames_dir i [] = Inr []"
| "extract_loop w video_path frames_dir i (ts # tss) =
     (let frame_path = path_join frames_dir (frame_filename i ts) in
      if run_ok w (frame_command video_path ts frame_path) then
        (case extract_loop w video_path frames_dir (Suc i) tss of
           Inl e \<Rightarrow> Inl e
         | Inr fs \<Rightarrow>
             Inr (\<lparr>index = i, timestamp = ts, filename = frame_filename i ts,
                   path = frame_path\<rparr> # fs))
      else Inl (CalledProcessError (frame_command video_path ts frame_path)))"

definition extract_frames :: "world \<Rightarrow> string \<Rightarrow> string \<Rightarrow> int \<Rightarrow> error + frame list" where
  "extract_frames w video_path output_dir interval =
     (let frames_dir = path_join output_dir ''frames'' in
      if makedirs w frames_dir then
        (case get_video_duration w video_path of
           None \<Rightarrow> Inl ProbeError
         | Some duration \<Rightarrow>
             (case timestamps_of duration interval of
                Inl e \<Rightarrow> Inl e
              | Inr timestamps \<Rightarrow> extract_loop w video_path frames_dir 0 timestamps))
      else Inl OSError)"

section \<open>String operations of the transcription adapter and the renderer\<close>

text \<open>The characters \<open>str.strip()\<close> removes (those with \<open>isspace()\<close>), below code point 256.\<close>

definition whitespace :: "char list" where
  "whitespace = [CHR 0x09, CHR 0x0A, CHR 0x0B, CHR 0x0C, CHR 0x0D, CHR 0x1C, CHR 0x1D,
                 CHR 0x1E, CHR 0x1F, CHR 0x20, CHR 0x85, CHR 0xA0]"

definition is_space :: "char \<Rightarrow> bool" where
  "is_space c = (c \<in> set whitespace)"

definition strip :: "string \<Rightarrow> string" where
  "strip s = rev (dropWhile is_space (rev (dropWhile is_space s)))"

definition startswith :: "string \<Rightarrow> string \<Rightarrow> bool" where
  "startswith s p = (take (length p) s = p)"

text \<open>\<open>s.split("\n")\<close>: the pieces between newlines, one more than there are newlines.\<close>

fun split_nl :: "string \<Rightarrow> string list" where
  "split_nl [] = [[]]"
| "split_nl (c # cs) =
     (let ls = split_nl cs in if c = CHR 0x0A then [] # ls else (c # hd ls) # tl ls)"

text \<open>\<open>"\n".join(lines)\<close>.\<close>

fun join_nl :: "string list \<Rightarrow> string" where
  "join_nl [] = []"
| "join_nl [l] = l"
| "join_nl (l # l' # ls) = l @ CHR 0x0A # join_nl (l' # ls)"

section \<open>Transcription adapter: transcribe_audio_gemini\<close>

datatype json =
    JNull
  | JBool bool
  | JInt int
  | JFloat real
  | JStr string
  | JArr "json list"
  | JObj "(string \<times> json) list"

definition fence :: string where
  "fence = ''```''"

text \<open>The test of line 156 on one line: stripped, it starts with the fence token.\<close>

definition fence_line :: "string \<Rightarrow> bool" where
  "fence_line l = startswith (strip l) fence"

text \<open>Lines 153 to 157, on the stripped response text.\<close>

definition strip_code_fence :: "string \<Rightarrow> string" where
  "strip_code_fence response_text =
     (if startswith response_text fence
      then join_nl (filter (\<lambda>l. \<not> fence_line l) (split_nl response_text))
      else response_text)"

text \<open>The value of \<open>response_text\<close> that line 160 hands to \<open>json.loads\<close>.\<close>

definition response_text_of :: "string \<Rightarrow> string" where
  "response_text_of text = strip_code_fence (strip text)"



text \<open>
  A line that is nothing but a fence delimiter, in the words of the specification: stripped
  of surrounding whitespace it is a run of at least three backticks and an info string (a
  language tag) that holds no backtick.
\<close>

definition pure_fence_delimiter :: "string \<Rightarrow> bool" where
  "pure_fence_delimiter l =
     (let s = strip l in
      3 \<le> length (takeWhile (\<lambda>c. c = CHR 0x60) s) \<and>
      CHR 0x60 \<notin> set (dropWhile (\<lambda>c. c = CHR 0x60) s))"

text \<open>
  The fence removal in the words of the specification, to compare with \<open>strip_code_fence\<close>:
  the lines that are pure fence delimiters are removed, the remaining lines joined again.
\<close>

definition strip_pure_fences :: "string \<Rightarrow> string" where
  "strip_pure_fences response_text =
     (if startswith response_text fence
      then join_nl (filter (\<lambda>l. \<not> pure_fence_delimiter l) (split_nl response_text))
      else response_text)"

section \<open>Files\<close>

text \<open>
  The file system as the renderer sees it: what a path resolves to, a regular file with
  its bytes or a directory, or nothing.
\<close>

datatype node = File "8 word list" | Dir

type_synonym filesystem = "string \<Rightarrow> node option"

definition path_exists :: "filesystem \<Rightarrow> string \<Rightarrow> bool" where
  "path_exists fs p = (fs p \<noteq> None)"

text \<open>\<open>open(p, "rb").read()\<close>.\<close>

definition read_bytes :: "filesystem \<Rightarrow> string \<Rightarrow> error + 8 word list" where
  "read_bytes fs p =
     (case fs p of
        Some (File content) \<Rightarrow> Inr content
      | Some Dir \<Rightarrow> Inl (IsADirectoryError p)
      | None \<Rightarrow> Inl OSError)"

subsection \<open>base64.b64encode\<close>

definition b64_alphabet :: string where
  "b64_alphabet = ''ABCDEFGHIJKLMNOPQRSTUVWXYZabcdefghijklmnopqrstuvwxyz0123456789+/''"

definition b64_char :: "nat \<Rightarrow> char" where
  "b64_char n = b64_alphabet ! n"

fun b64encode :: "8 word list \<Rightarrow> string" where
  "b64encode [] = []"
| "b64encode [a] =
     (let n = unat a * 65536
      in [b64_char (n div 262144), b64_char (n div 4096 mod 64), CHR ''='', CHR ''=''])"
| "b64encode [a, b] =
     (let n = unat a * 65536 + unat b * 256
      in [b64_char (n div 262144), b64_char (n div 4096 mod 64), b64_char (n div 64 mod 64),
          CHR ''=''])"
| "b64encode (a # b # c # rest) =
     (let n = unat a * 65536 + unat b * 256 + unat c
      in [b64_char (n div 262144), b64_char (n div 4096 mod 64), b64_char (n div 64 mod 64),
          b64_char (n mod 64)] @ b64encode rest)"

section \<open>Article renderer\<close>

text \<open>
  The pattern \<open>!\[([^\]]*)\]\(frames/([^)]+)\)\<close> at the start of a string. A negated
  class also matches a newline, and each greedy run ends exactly where its closing
  character has to stand, so the match at a position is unique. The result is the alt
  text, the text between \<open>frames/\<close> and the closing parenthesis, and what follows the
  match.
\<close>

definition match_placeholder :: "string \<Rightarrow> (string \<times> string \<times> string) option" where
  "match_placeholder s =
     (if startswith s ''!['' then
        (let r1 = drop 2 s;
             alt = takeWhile (\<lambda>c. c \<noteq> CHR '']'') r1;
             r2 = dropWhile (\<lambda>c. c \<noteq> CHR '']'') r1
         in if startswith r2 ''](frames/'' then
              (let r3 = drop 9 r2;
                   name = takeWhile (\<lambda>c. c \<noteq> CHR '')'') r3;
                   r4 = dropWhile (\<lambda>c. c \<noteq> CHR '')'') r3
               in if name \<noteq> [] \<and> r4 \<noteq> [] then Some (alt, name, tl r4) else None)
            else None)
      else None)"

text \<open>The text of a match, \<open>match.group(0)\<close>, given what follows it.\<close>

definition matched_text :: "string \<Rightarrow> string \<Rightarrow> string" where
  "matched_text s rest = take (length s - length rest) s"

text \<open>
  \<open>re.sub\<close> and \<open>re.split\<close> walk over the same matches: from left to right, the match at
  the current position if there is one, the search going on behind it, and one character
  further otherwise. \<open>scan\<close> is that walk.
\<close>

datatype piece = Literal char | Placeholder string string string

function scan :: "string \<Rightarrow> piece list" where
  "scan [] = []"
| "scan (c # cs) =
     (case match_placeholder (c # cs) of
        None \<Rightarrow> Literal c # scan cs
      | Some (alt, name, rest) \<Rightarrow>
          Placeholder alt name (matched_text (c # cs) rest) # scan rest)"
  by pat_completeness auto
termination
proof (relation "measure length")
  fix c :: char and cs :: string and x2 alt y name rest
  assume m: "match_placeholder (c # cs) = Some x2" and x2: "(alt, y) = x2"
    and y: "(name, rest) = y"
  define r1 where "r1 = drop 2 (c # cs)"
  define r2 where "r2 = dropWhile (\<lambda>c. c \<noteq> CHR '']'') r1"
  define r3 where "r3 = drop 9 r2"
  define r4 where "r4 = dropWhile (\<lambda>c. c \<noteq> CHR '')'') r3"
  from m x2 y have rest: "rest = tl r4" and ne: "r4 \<noteq> []"
    by (auto simp: match_placeholder_def Let_def r1_def r2_def r3_def r4_def split: if_splits)
  have "length r4 \<le> length r3" unfolding r4_def by (rule length_dropWhile_le)
  also have "\<dots> \<le> length r2" unfolding r3_def by simp
  also have "\<dots> \<le> length r1" unfolding r2_def by (rule length_dropWhile_le)
  also have "\<dots> \<le> length (c # cs)" unfolding r1_def by simp
  finally have "length r4 \<le> length (c # cs)" .
  moreover from ne have "length (tl r4) < length r4" by (cases r4) simp_all
  ultimately show "(rest, c # cs) \<in> measure length"
    using rest by simp
qed simp_all

declare scan.simps [simp del]

text \<open>
  \<open>re.sub(pattern, repl, s)\<close> with a function \<open>repl\<close> of the match (its alt text, the
  name behind \<open>frames/\<close> and its whole text): an exception of \<open>repl\<close> ends the
  substitution.
\<close>

fun sub_pieces :: "(string \<Rightarrow> string \<Rightarrow> string \<Rightarrow> error + string) \<Rightarrow> piece list \<Rightarrow> error + string" where
  "sub_pieces repl [] = Inr []"
| "sub_pieces repl (Literal c # ps) =
     (case sub_pieces repl ps of Inl e \<Rightarrow> Inl e | Inr out \<Rightarrow> Inr (c # out))"
| "sub_pieces repl (Placeholder alt name group0 # ps) =
     (case repl alt name group0 of
        Inl e \<Rightarrow> Inl e
      | Inr r \<Rightarrow> (case sub_pieces repl ps of Inl e \<Rightarrow> Inl e | Inr out \<Rightarrow> Inr (r @ out)))"

definition re_sub :: "(string \<Rightarrow> string \<Rightarrow> string \<Rightarrow> error + string) \<Rightarrow> string \<Rightarrow> error + string" where
  "re_sub repl s = sub_pieces repl (scan s)"

text \<open>
  \<open>re.split\<close> with the whole pattern as its one group: the texts between the matches and
  the matches themselves, in turn; \<open>cur\<close> is the text since the last match.
\<close>

fun split_pieces :: "string \<Rightarrow> piece list \<Rightarrow> string list" where
  "split_pieces cur [] = [cur]"
| "split_pieces cur (Literal c # ps) = split_pieces (cur @ [c]) ps"
| "split_pieces cur (Placeholder alt name group0 # ps) = cur # group0 # split_pieces [] ps"

definition re_split :: "string \<Rightarrow> string list" where
  "re_split s = split_pieces [] (scan s)"

subsection \<open>generate_preview_html\<close>

text \<open>Lines 236 to 244, with \<open>match.group(2)\<close> as \<open>img_path\<close> and \<open>match.group(0)\<close>.\<close>

definition replace_image_with_base64 ::
  "filesystem \<Rightarrow> string \<Rightarrow> string \<Rightarrow> string \<Rightarrow> string \<Rightarrow> error + string" where
  "replace_image_with_base64 fs frames_dir alt img_path group0 =
     (let full_path = path_join frames_dir (basename img_path) in
      if path_exists fs full_path then
        (case read_bytes fs full_path of
           Inl e \<Rightarrow> Inl e
         | Inr content \<Rightarrow>
             Inr (''!['' @ alt @ ''](data:image/jpeg;base64,'' @ b64encode content @ '')''))
      else Inr group0)"

text \<open>Lines 247 to 251: the article with its images inlined.\<close>

definition article_with_b64 :: "filesystem \<Rightarrow> string \<Rightarrow> string \<Rightarrow> error + string" where
  "article_with_b64 fs frames_dir article_content =
     re_sub (\<lambda>alt name group0.
               replace_image_with_base64 fs frames_dir alt (''frames/'' @ name) group0)
       article_content"

text \<open>
  \<open>markdown\<close> is \<open>md.markdown\<close> with its three extensions, \<open>template\<close> the page of lines
  258 to 291 around the converted article.
\<close>

definition generate_preview_html ::
  "(string \<Rightarrow> string) \<Rightarrow> (string \<Rightarrow> string) \<Rightarrow> filesystem \<Rightarrow> string \<Rightarrow> string \<Rightarrow> error + string" where
  "generate_preview_html markdown template fs frames_dir article_content =
     (case article_with_b64 fs frames_dir article_content of
        Inl e \<Rightarrow> Inl e
      | Inr a \<Rightarrow> Inr (template (markdown a)))"

subsection \<open>display_article\<close>

text \<open>What the page shows: \<open>st.markdown(part)\<close> or \<open>st.image(frame_path, caption=alt)\<close>.\<close>

datatype display = St_markdown string | St_image string string

text \<open>One turn of the loop of lines 298 to 307.\<close>

definition display_part :: "filesystem \<Rightarrow> string \<Rightarrow> string \<Rightarrow> display list" where
  "display_part fs frames_dir part =
     (case match_placeholder part of
        Some (alt, fname, rest) \<Rightarrow>
          (let frame_path = path_join frames_dir fname in
           if path_exists fs frame_path then [St_image frame_path alt] else [])
      | None \<Rightarrow> if strip part \<noteq> [] then [St_markdown part] else [])"

definition display_article :: "filesystem \<Rightarrow> string \<Rightarrow> string \<Rightarrow> display list" where
  "display_article fs frames_dir article =
     concat (map (display_part fs frames_dir) (re_split article))"

section \<open>The conversion handler\<close>

text \<open>
  Lines 373 to 447. A step of the handler acts on the file system and returns or raises;
  \<open>Exception\<close> is what \<open>except Exception\<close> catches, \<open>BaseException\<close> what it lets through.
\<close>

datatype exn = Exception string | BaseException string

datatype 'a outcome = Returned 'a | Raised exn

type_synonym 'a action = "filesystem \<Rightarrow> 'a outcome \<times> filesystem"

definition bind_action :: "'a action \<Rightarrow> ('a \<Rightarrow> 'b action) \<Rightarrow> 'b action" where
  "bind_action m f fs =
     (case m fs of
        (Returned x, fs') \<Rightarrow> f x fs'
      | (Raised e, fs') \<Rightarrow> (Raised e, fs'))"

text \<open>
  The steps, as they act on the file system: saving the upload and creating the output
  directory (lines 374 to 382, before the \<open>try\<close>), the four stages, the display of the
  results (lines 401 to 439) and the report of an error (lines 442 to 444).
\<close>

record stages =
  save_upload :: "string \<Rightarrow> string \<Rightarrow> unit action"
  run_extract_audio :: "string \<Rightarrow> string \<Rightarrow> string action"
  run_extract_frames :: "string \<Rightarrow> string \<Rightarrow> int \<Rightarrow> frame list action"
  run_transcribe :: "string \<Rightarrow> json action"
  run_generate_article :: "json \<Rightarrow> frame list \<Rightarrow> string \<Rightarrow> string \<Rightarrow> string action"
  show_results :: "string \<Rightarrow> string \<Rightarrow> json \<Rightarrow> frame list \<Rightarrow> unit action"
  report_error :: "exn \<Rightarrow> unit action"

text \<open>The body of the \<open>try\<close> (lines 385 to 439).\<close>

definition try_block ::
  "stages \<Rightarrow> string \<Rightarrow> string \<Rightarrow> string \<Rightarrow> int \<Rightarrow> string \<Rightarrow> unit action" where
  "try_block st tmp_video output_dir video_name interval custom_prompt =
     bind_action (run_extract_audio st tmp_video output_dir) (\<lambda>audio_path.
     bind_action (run_extract_frames st tmp_video output_dir interval) (\<lambda>frames.
     bind_action (run_transcribe st audio_path) (\<lambda>transcription.
     bind_action (run_generate_article st transcription frames video_name custom_prompt)
       (\<lambda>article.
     show_results st article (path_join output_dir ''frames'') transcription frames))))"

text \<open>
  \<open>shutil.rmtree(d, ignore_errors=True)\<close>: the directory and all below it are gone. The
  call never raises; a removal that the operating system refuses is outside the model.
\<close>

definition rmtree :: "string \<Rightarrow> filesystem \<Rightarrow> filesystem" where
  "rmtree d fs = (\<lambda>p. if p = d \<or> startswith p (d @ ''/'') then None else fs p)"

text \<open>How a run ends: completed, ended by a reported error, or left by an exception.\<close>

datatype ending = Completed | Reported exn | Propagated exn

text \<open>
  The handler: \<open>tmp_dir\<close> is the directory \<open>tempfile.mkdtemp()\<close> creates, \<open>video_name\<close> the
  stem of the upload's name.
\<close>

definition convert ::
  "stages \<Rightarrow> string \<Rightarrow> string \<Rightarrow> string \<Rightarrow> int \<Rightarrow> string \<Rightarrow> filesystem \<Rightarrow> ending \<times> filesystem" where
  "convert st tmp_dir upload_name video_name interval custom_prompt fs =
     (let fs1 = fs(tmp_dir \<mapsto> Dir);
          tmp_video = path_join tmp_dir upload_name;
          output_dir = path_join tmp_dir ''output''
      in case save_upload st tmp_video output_dir fs1 of
           (Raised e, fs2) \<Rightarrow> (Propagated e, fs2)
         | (Returned u, fs2) \<Rightarrow>
             (case try_block st tmp_video output_dir video_name interval custom_prompt fs2 of
                (Returned v, fs3) \<Rightarrow> (Completed, rmtree tmp_dir fs3)
              | (Raised (Exception msg), fs3) \<Rightarrow>
                  (case report_error st (Exception msg) fs3 of
                     (Returned v, fs4) \<Rightarrow> (Reported (Exception msg), rmtree tmp_dir fs4)
                   | (Raised e', fs4) \<Rightarrow> (Propagated e', rmtree tmp_dir fs4))
              | (Raised (BaseException msg), fs3) \<Rightarrow>
                  (Propagated (BaseException msg), rmtree tmp_dir fs3)))"

section \<open>Auxiliary notions for the proofs\<close>

text \<open>Reading a decimal numeral back, to show that the formatting loses nothing.\<close>

definition is_digit :: "char \<Rightarrow> bool" where
  "is_digit c = (c \<in> set ''0123456789'')"

definition digit_val :: "char \<Rightarrow> nat" where
  "digit_val c = of_char c - 48"

fun undigits :: "nat \<Rightarrow> string \<Rightarrow> nat" where
  "undigits acc [] = acc"
| "undigits acc (c # cs) = undigits (10 * acc + digit_val c) cs"

text \<open>
  The pieces of a scanned article: the text a piece stands for, what it becomes when the
  images are inlined, and whether its looked-up path is a regular file or absent.
\<close>

fun piece_text :: "piece \<Rightarrow> string" where
  "piece_text (Literal c) = [c]"
| "piece_text (Placeholder alt name group0) = group0"

fun regular_or_absent :: "filesystem \<Rightarrow> string \<Rightarrow> piece \<Rightarrow> bool" where
  "regular_or_absent fs frames_dir (Literal c) = True"
| "regular_or_absent fs frames_dir (Placeholder alt name group0) =
     (fs (path_join frames_dir (basename name)) \<noteq> Some Dir)"

fun inlined :: "filesystem \<Rightarrow> string \<Rightarrow> piece \<Rightarrow> string" where
  "inlined fs frames_dir (Literal c) = [c]"
| "inlined fs frames_dir (Placeholder alt name group0) =
     (case fs (path_join frames_dir (basename name)) of
        Some (File content) \<Rightarrow>
          ''!['' @ alt @ ''](data:image/jpeg;base64,'' @ b64encode content @ '')''
      | Some Dir \<Rightarrow> group0
      | None \<Rightarrow> group0)"

section \<open>Properties of the timestamp sequence\<close>

lemma range_from_up:
  "0 < step \<Longrightarrow> i < stop \<Longrightarrow> range_from i stop step = i # range_from (i + step) stop step"
  by (subst range_from.simps) simp

lemma range_from_down:
  "step < 0 \<Longrightarrow> stop < i \<Longrightarrow> range_from i stop step = i # range_from (i + step) stop step"
  by (subst range_from.simps) simp

lemma range_from_Nil:
  "\<not> (0 < step \<and> i < stop) \<Longrightarrow> \<not> (step < 0 \<and> stop < i) \<Longrightarrow> range_from i stop step = []"
  by (subst range_from.simps) auto

lemma range_from_stop: "x \<in> set (range_from i stop step) \<Longrightarrow> x \<noteq> stop"
proof (induction i stop step rule: range_from.induct)
  case (1 i stop step)
  consider (up) "0 < step" "i < stop" | (down) "step < 0" "stop < i"
    | (none) "\<not> (0 < step \<and> i < stop)" "\<not> (step < 0 \<and> stop < i)"
    by blast
  then show ?case
  proof cases
    case up
    with "1.prems" "1.IH"(1) show ?thesis by (auto simp: range_from_up)
  next
    case down
    with "1.prems" "1.IH"(2) show ?thesis by (auto simp: range_from_down)
  next
    case none
    with "1.prems" show ?thesis by (simp add: range_from_Nil)
  qed
qed

lemma range_from_up_set:
  "0 < step \<Longrightarrow> x \<in> set (range_from i stop step) \<longleftrightarrow> i \<le> x \<and> x < stop \<and> step dvd (x - i)"
proof (induction i stop step rule: range_from.induct)
  case (1 i stop step)
  show ?case
  proof (cases "i < stop")
    case True
    have unfold: "range_from i stop step = i # range_from (i + step) stop step"
      using True "1.prems" by (subst range_from.simps) simp
    have IH: "x \<in> set (range_from (i + step) stop step) \<longleftrightarrow>
        i + step \<le> x \<and> x < stop \<and> step dvd (x - (i + step))"
      using "1.IH"(1) True "1.prems" by simp
    have dv: "step dvd (x - (i + step)) \<longleftrightarrow> step dvd (x - i)"
      by (metis diff_diff_eq dvd_add_triv_right_iff diff_add_cancel)
    show ?thesis
    proof
      assume "x \<in> set (range_from i stop step)"
      then consider "x = i" | "x \<in> set (range_from (i + step) stop step)"
        using unfold by auto
      then show "i \<le> x \<and> x < stop \<and> step dvd (x - i)"
      proof cases
        case 1 then show ?thesis using True by simp
      next
        case 2 then show ?thesis using IH dv "1.prems" by auto
      qed
    next
      assume a: "i \<le> x \<and> x < stop \<and> step dvd (x - i)"
      show "x \<in> set (range_from i stop step)"
      proof (cases "x = i")
        case True then show ?thesis using unfold by simp
      next
        case False
        with a have "0 < x - i" by simp
        with a "1.prems" have "step \<le> x - i" using zdvd_imp_le by blast
        with a IH dv unfold show ?thesis by simp
      qed
    qed
  next
    case False
    then have "range_from i stop step = []"
      using "1.prems" by (subst range_from.simps) simp
    with False show ?thesis by auto
  qed
qed

lemma range_from_up_distinct: "0 < step \<Longrightarrow> distinct (range_from i stop step)"
proof (induction i stop step rule: range_from.induct)
  case (1 i stop step)
  show ?case
  proof (cases "i < stop")
    case True
    have unfold: "range_from i stop step = i # range_from (i + step) stop step"
      using True "1.prems" by (subst range_from.simps) simp
    have "i \<notin> set (range_from (i + step) stop step)"
      using "1.prems" by (simp add: range_from_up_set)
    with unfold "1.IH"(1) True "1.prems" show ?thesis by simp
  next
    case False
    then have "range_from i stop step = []"
      using "1.prems" by (subst range_from.simps) simp
    then show ?thesis by simp
  qed
qed

lemma timestamps_of_eq:
  "interval \<noteq> 0 \<Longrightarrow>
   timestamps_of duration interval =
     Inr (range_from 0 (py_int duration) interval @ [py_int duration - 1])"
  using range_from_stop [of "py_int duration" 0 "py_int duration" interval]
  by (auto simp: timestamps_of_def py_range_def)

lemma py_int_floor: "0 \<le> d \<Longrightarrow> py_int d = \<lfloor>d\<rfloor>"
  by (simp add: py_int_def)

section \<open>Properties of the frame records\<close>

lemma lt10_cases: "d < 10 \<Longrightarrow> d \<in> {0, 1, 2, 3, 4, 5, 6, 7, 8, 9 :: nat}"
  by auto

lemma digit_char_props: "d < 10 \<Longrightarrow> is_digit (digit_char d) \<and> digit_val (digit_char d) = d"
  by (drule lt10_cases) (auto simp: is_digit_def digit_val_def digit_char_def)

lemma undigits_append: "undigits acc (xs @ ys) = undigits (undigits acc xs) ys"
  by (induction xs arbitrary: acc) auto

lemma undigits_digits: "undigits 0 (digits n) = n"
proof (induction n rule: digits.induct)
  case (1 n)
  show ?case
  proof (cases "n < 10")
    case True
    then show ?thesis by (subst digits.simps) (simp add: digit_char_props)
  next
    case False
    then have "undigits 0 (digits n) = 10 * (n div 10) + n mod 10"
      using "1.IH" by (subst digits.simps) (simp add: undigits_append digit_char_props)
    then show ?thesis by simp
  qed
qed

lemma digits_all_digit: "list_all is_digit (digits n)"
proof (induction n rule: digits.induct)
  case (1 n)
  then show ?case
    by (subst digits.simps) (simp add: digit_char_props)
qed

lemma undigits_zeros: "undigits 0 (replicate k CHR ''0'' @ s) = undigits 0 s"
  by (induction k) (auto simp: digit_val_def)

lemma undigits_pad4: "undigits 0 (pad4 i) = i"
  by (simp add: pad4_def undigits_zeros undigits_digits)

lemma zeros_all_digit: "list_all is_digit (replicate k CHR ''0'')"
  by (induction k) (simp_all add: is_digit_def)

lemma pad4_all_digit: "list_all is_digit (pad4 i)"
  by (simp add: pad4_def zeros_all_digit digits_all_digit)

lemma takeWhile_digits: "list_all is_digit xs \<Longrightarrow> \<not> is_digit z \<Longrightarrow> takeWhile is_digit (xs @ z # r) = xs"
  by (induction xs) auto

lemma frame_filename_inj:
  assumes "frame_filename i ts = frame_filename j ts'" shows "i = j"
proof -
  have nd: "\<not> is_digit CHR ''_''" by (simp add: is_digit_def)
  have shape: "drop 6 (frame_filename k t) = pad4 k @ CHR ''_'' # (py_str t @ ''s.jpg'')" for k t
    by (simp add: frame_filename_def)
  have "takeWhile is_digit (drop 6 (frame_filename k t)) = pad4 k" for k t
    by (simp only: shape takeWhile_digits [OF pad4_all_digit nd])
  from this [of i ts] this [of j ts'] assms have "pad4 i = pad4 j" by simp
  then have "undigits 0 (pad4 i) = undigits 0 (pad4 j)" by simp
  then show ?thesis by (simp only: undigits_pad4)
qed

lemma extract_loop_shape:
  "extract_loop w v d i tss = Inr fs \<Longrightarrow>
     length fs = length tss \<and>
     (\<forall>k < length fs. index (fs ! k) = i + k \<and> timestamp (fs ! k) = tss ! k \<and>
        filename (fs ! k) = frame_filename (i + k) (tss ! k) \<and>
        path (fs ! k) = path_join d (frame_filename (i + k) (tss ! k)))"
proof (induction tss arbitrary: i fs)
  case Nil
  then show ?case by simp
next
  case (Cons ts tss)
  from Cons.prems obtain fs' where
    rest: "extract_loop w v d (Suc i) tss = Inr fs'" and
    fs: "fs = \<lparr>index = i, timestamp = ts, filename = frame_filename i ts,
              path = path_join d (frame_filename i ts)\<rparr> # fs'"
    by (auto simp: Let_def split: if_splits sum.splits)
  note IH = Cons.IH [OF rest]
  have len: "length fs = length (ts # tss)" using IH fs by simp
  have "index (fs ! k) = i + k \<and> timestamp (fs ! k) = (ts # tss) ! k \<and>
        filename (fs ! k) = frame_filename (i + k) ((ts # tss) ! k) \<and>
        path (fs ! k) = path_join d (frame_filename (i + k) ((ts # tss) ! k))"
    if "k < length fs" for k
  proof (cases k)
    case 0
    then show ?thesis using fs by simp
  next
    case (Suc k')
    with that fs have "k' < length fs'" by simp
    with IH have "index (fs' ! k') = Suc i + k' \<and> timestamp (fs' ! k') = tss ! k' \<and>
        filename (fs' ! k') = frame_filename (Suc i + k') (tss ! k') \<and>
        path (fs' ! k') = path_join d (frame_filename (Suc i + k') (tss ! k'))"
      by blast
    then show ?thesis using Suc fs by simp
  qed
  with len show ?case by blast
qed

lemma extract_loop_ok:
  assumes "\<And>ts i. run_ok w (frame_command v ts (path_join d (frame_filename i ts)))"
  shows "\<exists>fs. extract_loop w v d i tss = Inr fs"
proof (induction tss arbitrary: i)
  case Nil
  show ?case by simp
next
  case (Cons ts tss)
  from Cons.IH [of "Suc i"] obtain fs where "extract_loop w v d (Suc i) tss = Inr fs" ..
  with assms show ?case by (simp add: Let_def)
qed

lemma extract_loop_distinct:
  assumes "extract_loop w v d i tss = Inr fs"
  shows "distinct (map filename fs)"
proof -
  note sh = extract_loop_shape [OF assms]
  have "filename (fs ! a) \<noteq> filename (fs ! b)" if "a < length fs" "b < length fs" "a \<noteq> b" for a b
  proof
    assume "filename (fs ! a) = filename (fs ! b)"
    with sh that have "frame_filename (i + a) (tss ! a) = frame_filename (i + b) (tss ! b)"
      by simp
    then have "i + a = i + b" by (rule frame_filename_inj)
    with that show False by simp
  qed
  then show ?thesis by (simp add: distinct_conv_nth)
qed

lemma range_from_zero_Nil: "step \<noteq> 0 \<Longrightarrow> range_from 0 0 step = []"
  by (simp add: range_from_Nil)

lemma timestamps_last:
  assumes "interval \<noteq> 0" "timestamps_of duration interval = Inr ts"
  shows "ts \<noteq> [] \<and> last ts = py_int duration - 1"
  using assms by (auto simp: timestamps_of_eq)

lemma timestamps_distinct_iff:
  assumes "1 \<le> duration" "1 \<le> interval" "timestamps_of duration interval = Inr ts"
  shows "distinct ts \<longleftrightarrow> \<not> interval dvd (\<lfloor>duration\<rfloor> - 1)"
proof -
  from assms have n: "py_int duration = \<lfloor>duration\<rfloor>" "1 \<le> \<lfloor>duration\<rfloor>"
    by (simp_all add: py_int_def)
  from assms have ts: "ts = range_from 0 \<lfloor>duration\<rfloor> interval @ [\<lfloor>duration\<rfloor> - 1]"
    using n by (simp add: timestamps_of_eq)
  have "distinct ts \<longleftrightarrow> \<lfloor>duration\<rfloor> - 1 \<notin> set (range_from 0 \<lfloor>duration\<rfloor> interval)"
    using assms(2) by (simp add: ts range_from_up_distinct)
  also have "\<dots> \<longleftrightarrow> \<not> interval dvd (\<lfloor>duration\<rfloor> - 1)"
    using assms(2) n by (simp add: range_from_up_set)
  finally show ?thesis .
qed

lemma extract_loop_timestamps:
  "extract_loop w v d i tss = Inr fs \<Longrightarrow> map timestamp fs = tss"
proof (induction tss arbitrary: i fs)
  case Nil
  then show ?case by simp
next
  case (Cons ts tss)
  from Cons.prems obtain fs' where
    rest: "extract_loop w v d (Suc i) tss = Inr fs'" and
    fs: "fs = \<lparr>index = i, timestamp = ts, filename = frame_filename i ts,
              path = path_join d (frame_filename i ts)\<rparr> # fs'"
    by (auto simp: Let_def split: if_splits sum.splits)
  from Cons.IH [OF rest] fs show ?case by simp
qed


section \<open>Claims about extract_frames\<close>

text \<open>
  C1 (the timestamp sequence has no duplicate): the code appends \<open>int(duration) - 1\<close>
  whenever \<open>int(duration)\<close> itself is not in the range, which is always, so a duration of
  11 seconds and an interval of 10 give the timestamp 10 twice.
\<close>

theorem timestamps_duplicate_at_11_10:
  "timestamps_of 11 10 = Inr [0, 10, 10] \<and> \<not> distinct [0, 10, 10 :: int]"
  by (simp add: timestamps_of_def py_range_def py_int_def range_from.simps)

text \<open>
  C5: for a video of 65 seconds and an interval of 10, when the directory can be made and
  every frame extraction command succeeds, \<open>extract_frames\<close> returns exactly 8 frame
  records and their timestamps are 0, 10, 20, 30, 40, 50, 60, 64 in that order.
\<close>

theorem extract_frames_65_10:
  assumes "makedirs w (path_join output_dir ''frames'')"
    and "get_video_duration w video_path = Some d" and "py_int d = 65"
    and "\<And>i ts. run_ok w (frame_command video_path ts
            (path_join (path_join output_dir ''frames'') (frame_filename i ts)))"
  shows "\<exists>fs. extract_frames w video_path output_dir 10 = Inr fs \<and> length fs = 8 \<and>
           map timestamp fs = [0, 10, 20, 30, 40, 50, 60, 64]"
proof -
  have ts: "timestamps_of d 10 = Inr [0, 10, 20, 30, 40, 50, 60, 64]"
    using assms(3) by (simp add: timestamps_of_def py_range_def range_from.simps)
  obtain fs where fs: "extract_loop w video_path (path_join output_dir ''frames'') 0
      [0, 10, 20, 30, 40, 50, 60, 64] = Inr fs"
    using extract_loop_ok [of w video_path "path_join output_dir ''frames''", OF assms(4)] by blast
  have ex: "extract_frames w video_path output_dir 10 = Inr fs"
    using assms(1,2) ts fs by (simp add: extract_frames_def)
  have tm: "map timestamp fs = [0, 10, 20, 30, 40, 50, 60, 64]"
    by (rule extract_loop_timestamps [OF fs])
  then have "length (map timestamp fs) = 8" by simp
  then have len: "length fs = 8" by simp
  show ?thesis
    by (rule exI [of _ fs]) (simp add: ex len tm)
qed

theorem extract_frames_65_10_witness:
  "\<exists>fs. extract_frames \<lparr>makedirs = (\<lambda>p. True), get_video_duration = (\<lambda>p. Some 65),
       run_ok = (\<lambda>argv. True)\<rparr> ''/tmp/w/talk.mp4'' ''/tmp/w/output'' 10 = Inr fs \<and>
     length fs = 8 \<and> map timestamp fs = [0, 10, 20, 30, 40, 50, 60, 64]"
  by (rule extract_frames_65_10 [where d = 65]) (simp_all add: py_int_def)

text \<open>
  C7: in every sequence of frame records that \<open>extract_frames\<close> returns, the index of a
  record is its position, so the indices increase strictly, and no two records have the
  same filename.
\<close>

theorem extract_frames_index_filename:
  assumes "extract_frames w video_path output_dir interval = Inr fs"
  shows "map index fs = [0 ..< length fs] \<and> sorted_wrt (<) (map index fs) \<and>
         distinct (map filename fs)"
proof -
  from assms obtain tss where
    loop: "extract_loop w video_path (path_join output_dir ''frames'') 0 tss = Inr fs"
    by (auto simp: extract_frames_def Let_def split: if_splits option.splits sum.splits)
  note sh = extract_loop_shape [OF loop]
  have pos: "map index fs = [0 ..< length fs]"
    by (rule nth_equalityI) (use sh in simp_all)
  then have "sorted_wrt (<) (map index fs)"
    by simp
  with pos extract_loop_distinct [OF loop] show ?thesis by blast
qed

lemma frame_filename_values:
  "frame_filename 0 0 = ''frame_0000_0s.jpg''"
  "frame_filename (Suc 0) 10 = ''frame_0001_10s.jpg''"
  "frame_filename (Suc (Suc 0)) 10 = ''frame_0002_10s.jpg''"
  "frame_filename 0 (- 1) = ''frame_0000_-1s.jpg''"
  by code_simp+

theorem extract_frames_index_filename_witness:
  "extract_frames \<lparr>makedirs = (\<lambda>p. True), get_video_duration = (\<lambda>p. Some 11),
       run_ok = (\<lambda>argv. True)\<rparr> ''/tmp/w/talk.mp4'' ''/tmp/w/output'' 10 =
     Inr [\<lparr>index = 0, timestamp = 0, filename = ''frame_0000_0s.jpg'',
            path = ''/tmp/w/output/frames/frame_0000_0s.jpg''\<rparr>,
          \<lparr>index = 1, timestamp = 10, filename = ''frame_0001_10s.jpg'',
            path = ''/tmp/w/output/frames/frame_0001_10s.jpg''\<rparr>,
          \<lparr>index = 2, timestamp = 10, filename = ''frame_0002_10s.jpg'',
            path = ''/tmp/w/output/frames/frame_0002_10s.jpg''\<rparr>] \<and>
   distinct [''frame_0000_0s.jpg'', ''frame_0001_10s.jpg'', ''frame_0002_10s.jpg'']"
proof -
  let ?w = "\<lparr>makedirs = (\<lambda>p. True), get_video_duration = (\<lambda>p. Some 11),
       run_ok = (\<lambda>argv. True)\<rparr>"
  have ts: "timestamps_of 11 10 = Inr [0, 10, 10]"
    by (simp add: timestamps_of_def py_range_def py_int_def range_from.simps)
  have e: "extract_frames ?w ''/tmp/w/talk.mp4'' ''/tmp/w/output'' 10 =
     Inr [\<lparr>index = 0, timestamp = 0, filename = ''frame_0000_0s.jpg'',
            path = ''/tmp/w/output/frames/frame_0000_0s.jpg''\<rparr>,
          \<lparr>index = 1, timestamp = 10, filename = ''frame_0001_10s.jpg'',
            path = ''/tmp/w/output/frames/frame_0001_10s.jpg''\<rparr>,
          \<lparr>index = 2, timestamp = 10, filename = ''frame_0002_10s.jpg'',
            path = ''/tmp/w/output/frames/frame_0002_10s.jpg''\<rparr>]"
    by (simp add: extract_frames_def ts frame_filename_values path_join_def)
  from extract_frames_index_filename [OF e] e show ?thesis by simp
qed

text \<open>
  C9: for a video whose probed duration \<open>d\<close> has \<open>floor d = 0\<close> (and an interval other
  than 0, and the frames directory made), the only timestamp is \<open>-1\<close>: one extraction
  command is run, with the offset \<open>-1\<close> after \<open>-ss\<close>, and when it succeeds
  \<open>extract_frames\<close> returns exactly one frame record, of timestamp \<open>-1\<close>.
\<close>

theorem subsecond_video_frame:
  assumes "makedirs w (path_join output_dir ''frames'')"
    and "get_video_duration w video_path = Some d" and "\<lfloor>d\<rfloor> = 0" and "interval \<noteq> 0"
  shows "timestamps_of d interval = Inr [- 1] \<and>
         extract_frames w video_path output_dir interval =
           (let frame_path = path_join (path_join output_dir ''frames'') ''frame_0000_-1s.jpg'';
                cmd = [''ffmpeg'', ''-i'', video_path, ''-ss'', ''-1'',
                       ''-frames:v'', ''1'', ''-q:v'', ''2'', ''-y'', frame_path]
            in if run_ok w cmd
               then Inr [\<lparr>index = 0, timestamp = - 1, filename = ''frame_0000_-1s.jpg'',
                          path = frame_path\<rparr>]
               else Inl (CalledProcessError cmd))"
proof -
  from assms(3) have "0 \<le> d" by linarith
  with assms(3) have n: "py_int d = 0" by (simp add: py_int_def)
  have ts: "timestamps_of d interval = Inr [- 1]"
    using assms(4) n by (simp add: timestamps_of_eq range_from_zero_Nil)
  have cmd: "py_str (- 1) = ''-1''"
    by code_simp
  show ?thesis
    using assms(1,2) ts
    by (simp add: extract_frames_def Let_def frame_filename_values cmd frame_command_def)
qed

theorem subsecond_video_frame_witness:
  "\<lfloor>1 / 2 :: real\<rfloor> = 0 \<and> timestamps_of (1 / 2) 10 = Inr [- 1] \<and>
   extract_frames \<lparr>makedirs = (\<lambda>p. True), get_video_duration = (\<lambda>p. Some (1 / 2)),
       run_ok = (\<lambda>argv. True)\<rparr> ''/tmp/w/clip.mp4'' ''/tmp/w/output'' 10 =
     Inr [\<lparr>index = 0, timestamp = - 1, filename = ''frame_0000_-1s.jpg'',
            path = ''/tmp/w/output/frames/frame_0000_-1s.jpg''\<rparr>]"
proof -
  let ?w = "\<lparr>makedirs = (\<lambda>p. True), get_video_duration = (\<lambda>p. Some (1 / 2)),
       run_ok = (\<lambda>argv. True)\<rparr>"
  have fl: "\<lfloor>1 / 2 :: real\<rfloor> = 0" by simp
  have "makedirs ?w (path_join ''/tmp/w/output'' ''frames'')" by simp
  moreover have "get_video_duration ?w ''/tmp/w/clip.mp4'' = Some (1 / 2)" by simp
  ultimately show ?thesis
    using subsecond_video_frame [of ?w "''/tmp/w/output''" "''/tmp/w/clip.mp4''" "1 / 2" 10] fl
    by (simp add: path_join_def)
qed

section \<open>Properties of the placeholder scan\<close>

lemma takeWhile_until: "z \<notin> set xs \<Longrightarrow> takeWhile (\<lambda>c. c \<noteq> z) (xs @ z # r) = xs"
  by (induction xs) auto

lemma dropWhile_until: "z \<notin> set xs \<Longrightarrow> dropWhile (\<lambda>c. c \<noteq> z) (xs @ z # r) = z # r"
  by (induction xs) auto

lemma match_placeholder_exact:
  assumes "CHR '']'' \<notin> set alt" "name \<noteq> []" "CHR '')'' \<notin> set name"
  shows "match_placeholder (''!['' @ alt @ ''](frames/'' @ name @ '')'' @ rest) =
           Some (alt, name, rest)"
  using assms
  by (simp add: match_placeholder_def startswith_def Let_def takeWhile_until dropWhile_until)

lemma scan_placeholder:
  assumes "CHR '']'' \<notin> set alt" "name \<noteq> []" "CHR '')'' \<notin> set name"
  shows "scan (''!['' @ alt @ ''](frames/'' @ name @ '')'') =
           [Placeholder alt name (''!['' @ alt @ ''](frames/'' @ name @ '')'')]"
proof -
  define cs where "cs = CHR ''['' # alt @ ''](frames/'' @ name @ '')''"
  have s: "''!['' @ alt @ ''](frames/'' @ name @ '')'' = CHR ''!'' # cs"
    by (simp add: cs_def)
  have m: "match_placeholder (CHR ''!'' # cs) = Some (alt, name, [])"
    using match_placeholder_exact [OF assms, of "[]"] by (simp add: cs_def)
  have "scan (CHR ''!'' # cs) = [Placeholder alt name (matched_text (CHR ''!'' # cs) [])]"
    by (subst scan.simps(2)) (simp add: m scan.simps(1))
  then show ?thesis
    unfolding s matched_text_def by simp
qed

lemma basename_frames: "basename (''frames/'' @ p) = basename p"
proof -
  have r: "rev (''frames/'' @ p) = rev p @ CHR ''/'' # ''semarf''" by simp
  have "takeWhile (\<lambda>c. c \<noteq> CHR ''/'') (rev p @ CHR ''/'' # ''semarf'')
      = takeWhile (\<lambda>c. c \<noteq> CHR ''/'') (rev p)"
  proof (cases "CHR ''/'' \<in> set (rev p)")
    case True
    from split_list_first [OF this]
    obtain ys zs where sp: "rev p = ys @ CHR ''/'' # zs" and ys: "CHR ''/'' \<notin> set ys"
      by blast
    have "takeWhile (\<lambda>c. c \<noteq> CHR ''/'') (ys @ CHR ''/'' # (zs @ CHR ''/'' # ''semarf'')) = ys"
      using ys by (rule takeWhile_until)
    moreover have "takeWhile (\<lambda>c. c \<noteq> CHR ''/'') (ys @ CHR ''/'' # zs) = ys"
      using ys by (rule takeWhile_until)
    ultimately show ?thesis unfolding sp by simp
  next
    case False
    then have "takeWhile (\<lambda>c. c \<noteq> CHR ''/'') (rev p @ CHR ''/'' # ''semarf'') = rev p"
      by (rule takeWhile_until)
    moreover have "takeWhile (\<lambda>c. c \<noteq> CHR ''/'') (rev p) = rev p"
      by (rule takeWhile_eq_all_conv [THEN iffD2]) (use False in auto)
    ultimately show ?thesis by (simp only:)
  qed
  then show ?thesis unfolding basename_def r by simp
qed

lemma article_with_b64_placeholder:
  assumes "CHR '']'' \<notin> set alt" "p \<noteq> []" "CHR '')'' \<notin> set p"
  shows "article_with_b64 fs frames_dir (''!['' @ alt @ ''](frames/'' @ p @ '')'') =
     (if path_exists fs (path_join frames_dir (basename p))
      then (case read_bytes fs (path_join frames_dir (basename p)) of
              Inl e \<Rightarrow> Inl e
            | Inr content \<Rightarrow>
                Inr (''!['' @ alt @ ''](data:image/jpeg;base64,'' @ b64encode content @ '')''))
      else Inr (''!['' @ alt @ ''](frames/'' @ p @ '')''))"
  unfolding article_with_b64_def re_sub_def scan_placeholder [OF assms] sub_pieces.simps
    replace_image_with_base64_def basename_frames
  by (simp add: Let_def split: sum.splits)


lemma startswith_append: "startswith s p \<Longrightarrow> s = p @ drop (length p) s"
  unfolding startswith_def by (metis append_take_drop_id)

lemma match_placeholder_form:
  assumes "match_placeholder s = Some (alt, name, rest)"
  shows "s = ''!['' @ alt @ ''](frames/'' @ name @ '')'' @ rest \<and>
         CHR '']'' \<notin> set alt \<and> name \<noteq> [] \<and> CHR '')'' \<notin> set name"
proof -
  define r1 where "r1 = drop 2 s"
  define r2 where "r2 = dropWhile (\<lambda>c. c \<noteq> CHR '']'') r1"
  define r3 where "r3 = drop 9 r2"
  define r4 where "r4 = dropWhile (\<lambda>c. c \<noteq> CHR '')'') r3"
  from assms have st1: "startswith s ''![''" and st2: "startswith r2 ''](frames/''"
    and alt: "alt = takeWhile (\<lambda>c. c \<noteq> CHR '']'') r1"
    and name: "name = takeWhile (\<lambda>c. c \<noteq> CHR '')'') r3"
    and ne: "name \<noteq> []" "r4 \<noteq> []" and rest: "rest = tl r4"
    by (auto simp: match_placeholder_def Let_def r1_def r2_def r3_def r4_def split: if_splits)
  have s: "s = ''!['' @ r1" using startswith_append [OF st1] by (simp add: r1_def eval_nat_numeral)
  have r1: "r1 = alt @ r2" by (simp add: alt r2_def)
  have r2: "r2 = ''](frames/'' @ r3" using startswith_append [OF st2] by (simp add: r3_def eval_nat_numeral)
  have r3: "r3 = name @ r4" by (simp add: name r4_def)
  have "\<not> (hd r4 \<noteq> CHR '')'')" using ne(2) unfolding r4_def by (rule hd_dropWhile)
  with ne(2) rest have r4: "r4 = CHR '')'' # rest" by (cases r4) simp_all
  have "s = ''!['' @ alt @ ''](frames/'' @ name @ '')'' @ rest"
    by (subst s, subst r1, subst r2, subst r3, subst r4) simp
  moreover have "CHR '']'' \<notin> set alt" unfolding alt by (auto dest: set_takeWhileD)
  moreover have "CHR '')'' \<notin> set name" unfolding name by (auto dest: set_takeWhileD)
  ultimately show ?thesis using ne(1) by simp
qed

lemma matched_text_append: "matched_text (pre @ rest) rest = pre"
  by (simp add: matched_text_def)

lemma matched_text_form:
  assumes "match_placeholder s = Some (alt, name, rest)"
  shows "matched_text s rest = ''!['' @ alt @ ''](frames/'' @ name @ '')''"
proof -
  from match_placeholder_form [OF assms]
  have s: "s = (''!['' @ alt @ ''](frames/'' @ name @ '')'') @ rest" by simp
  show ?thesis by (subst s) (rule matched_text_append)
qed

lemma scan_text: "concat (map piece_text (scan s)) = s"
proof (induction s rule: scan.induct)
  case 1
  show ?case by (simp add: scan.simps)
next
  case (2 c cs)
  show ?case
  proof (cases "match_placeholder (c # cs)")
    case None
    with "2.IH"(1) show ?thesis by (simp add: scan.simps)
  next
    case (Some m)
    obtain alt name rest where m: "m = (alt, name, rest)" by (cases m) auto
    from Some m have mp: "match_placeholder (c # cs) = Some (alt, name, rest)" by simp
    from match_placeholder_form [OF mp] matched_text_form [OF mp]
    have "matched_text (c # cs) rest @ rest = c # cs" by simp
    moreover have "concat (map piece_text (scan rest)) = rest"
      using "2.IH"(2) [OF Some m [symmetric] refl] .
    ultimately show ?thesis using mp by (simp add: scan.simps)
  qed
qed

lemma scan_placeholders:
  "Placeholder alt name group0 \<in> set (scan s) \<Longrightarrow>
     group0 = ''!['' @ alt @ ''](frames/'' @ name @ '')'' \<and>
     CHR '']'' \<notin> set alt \<and> name \<noteq> [] \<and> CHR '')'' \<notin> set name"
proof (induction s rule: scan.induct)
  case 1
  then show ?case by (simp add: scan.simps)
next
  case (2 c cs)
  show ?case
  proof (cases "match_placeholder (c # cs)")
    case None
    with "2.prems" "2.IH"(1) show ?thesis by (simp add: scan.simps)
  next
    case (Some m)
    obtain alt' name' rest where m: "m = (alt', name', rest)" by (cases m) auto
    from Some m have mp: "match_placeholder (c # cs) = Some (alt', name', rest)" by simp
    from "2.prems" mp consider
      (here) "alt = alt'" "name = name'" "group0 = matched_text (c # cs) rest"
      | (later) "Placeholder alt name group0 \<in> set (scan rest)"
      by (auto simp: scan.simps)
    then show ?thesis
    proof cases
      case here
      with match_placeholder_form [OF mp] matched_text_form [OF mp] show ?thesis by simp
    next
      case later
      then show ?thesis using "2.IH"(2) [OF Some m [symmetric] refl] by simp
    qed
  qed
qed

lemma sub_pieces_inlined:
  assumes "list_all (regular_or_absent fs frames_dir) ps"
  shows "sub_pieces (\<lambda>alt name group0.
             replace_image_with_base64 fs frames_dir alt (''frames/'' @ name) group0) ps =
           Inr (concat (map (inlined fs frames_dir) ps))"
  using assms
proof (induction ps)
  case Nil
  show ?case by simp
next
  case (Cons pc ps)
  then have IH: "sub_pieces (\<lambda>alt name group0.
             replace_image_with_base64 fs frames_dir alt (''frames/'' @ name) group0) ps =
           Inr (concat (map (inlined fs frames_dir) ps))"
    by simp
  show ?case
  proof (cases pc)
    case (Literal c)
    with IH show ?thesis by simp
  next
    case (Placeholder alt name group0)
    with Cons.prems have nd: "fs (path_join frames_dir (basename name)) \<noteq> Some Dir"
      by simp
    have b: "basename (''frames/'' @ name) = basename name" by (rule basename_frames)
    have "replace_image_with_base64 fs frames_dir alt (''frames/'' @ name) group0 =
        Inr (inlined fs frames_dir (Placeholder alt name group0))"
      unfolding replace_image_with_base64_def b using nd
      by (auto simp: path_exists_def read_bytes_def Let_def
          split: option.splits node.splits)
    with IH Placeholder show ?thesis by simp
  qed
qed

lemma article_with_b64_inlined:
  assumes "list_all (regular_or_absent fs frames_dir) (scan article)"
  shows "article_with_b64 fs frames_dir article =
           Inr (concat (map (inlined fs frames_dir) (scan article)))"
  unfolding article_with_b64_def re_sub_def by (rule sub_pieces_inlined [OF assms])

section \<open>Claims about the renderer\<close>

text \<open>
  C4: \<open>display_article\<close> on the article \<open>A ![x](frames/f.jpg) B\<close> shows, when the file
  \<open>f.jpg\<close> exists in the frames directory, the text \<open>A \<close>, the image \<open>f.jpg\<close> with the
  caption \<open>x\<close> and the text \<open> B\<close>, in this order; when it does not exist, exactly the
  two texts \<open>A \<close> and \<open> B\<close> and no image.
\<close>

theorem display_article_example:
  "display_article fs frames_dir ''A ![x](frames/f.jpg) B'' =
     (if path_exists fs (path_join frames_dir ''f.jpg'')
      then [St_markdown ''A '', St_image (path_join frames_dir ''f.jpg'') ''x'',
            St_markdown '' B'']
      else [St_markdown ''A '', St_markdown '' B''])"
proof -
  have parts: "re_split ''A ![x](frames/f.jpg) B'' = [''A '', ''![x](frames/f.jpg)'', '' B'']"
    by code_simp
  have m1: "match_placeholder ''A '' = None" by code_simp
  have m2: "match_placeholder ''![x](frames/f.jpg)'' = Some (''x'', ''f.jpg'', [])" by code_simp
  have m3: "match_placeholder '' B'' = None" by code_simp
  have s1: "strip ''A '' = ''A''" by code_simp
  have s3: "strip '' B'' = ''B''" by code_simp
  show ?thesis
    by (simp add: display_article_def parts display_part_def m1 m2 m3 s1 s3)
qed



text \<open>
  C3 (every placeholder is inlined or left unchanged, for every article): the replacement
  tests the looked-up path with \<open>os.path.exists\<close> and then opens it. For the article
  \<open>![a](frames/..)\<close> and an existing frames directory the path is a directory, the
  \<open>open\<close> raises IsADirectoryError and \<open>generate_preview_html\<close> returns no page at all.
\<close>

theorem generate_preview_html_directory:
  "generate_preview_html markdown template
       (Map.empty(''/tmp/w/output/frames'' \<mapsto> Dir, ''/tmp/w/output/frames/..'' \<mapsto> Dir))
       ''/tmp/w/output/frames'' ''![a](frames/..)'' =
     Inl (IsADirectoryError ''/tmp/w/output/frames/..'')"
proof -
  have b: "basename ''..'' = ''..''" by code_simp
  have j: "path_join ''/tmp/w/output/frames'' ''..'' = ''/tmp/w/output/frames/..''"
    by code_simp
  have "article_with_b64
       (Map.empty(''/tmp/w/output/frames'' \<mapsto> Dir, ''/tmp/w/output/frames/..'' \<mapsto> Dir))
       ''/tmp/w/output/frames'' (''!['' @ ''a'' @ ''](frames/'' @ ''..'' @ '')'') =
     Inl (IsADirectoryError ''/tmp/w/output/frames/..'')"
    by (subst article_with_b64_placeholder) (simp_all add: b j path_exists_def read_bytes_def)
  then show ?thesis
    by (simp add: generate_preview_html_def)
qed

section \<open>Properties of the response handling\<close>

lemma split_nl_nonempty: "split_nl s \<noteq> []"
  by (induction s) (auto simp: Let_def)

lemma split_nl_no_newline: "l \<in> set (split_nl s) \<Longrightarrow> CHR 0x0A \<notin> set l"
proof (induction s arbitrary: l)
  case Nil
  then show ?case by simp
next
  case (Cons c s)
  obtain l0 ls where sp: "split_nl s = l0 # ls"
    using split_nl_nonempty [of s] by (cases "split_nl s") auto
  show ?case
  proof (cases "c = CHR 0x0A")
    case True
    with Cons.prems have "l = [] \<or> l \<in> set (split_nl s)" by (simp add: Let_def)
    with Cons.IH show ?thesis by auto
  next
    case False
    with Cons.prems sp have "l = c # l0 \<or> l \<in> set ls" by (simp add: Let_def)
    moreover have "CHR 0x0A \<notin> set l0" using Cons.IH [of l0] sp by simp
    moreover have "l \<in> set ls \<Longrightarrow> CHR 0x0A \<notin> set l" using Cons.IH [of l] sp by simp
    ultimately show ?thesis using False by auto
  qed
qed

lemma split_nl_line: "CHR 0x0A \<notin> set l \<Longrightarrow> split_nl (l @ CHR 0x0A # r) = l # split_nl r"
proof (induction l)
  case Nil
  show ?case by (simp add: Let_def)
next
  case (Cons c l)
  then show ?case by (auto simp: Let_def)
qed

lemma split_nl_single: "CHR 0x0A \<notin> set l \<Longrightarrow> split_nl l = [l]"
  by (induction l) (auto simp: Let_def)

lemma split_join_nl:
  "ls \<noteq> [] \<Longrightarrow> (\<And>l. l \<in> set ls \<Longrightarrow> CHR 0x0A \<notin> set l) \<Longrightarrow> split_nl (join_nl ls) = ls"
proof (induction ls rule: join_nl.induct)
  case 1
  then show ?case by simp
next
  case (2 l)
  then show ?case by (simp add: split_nl_single)
next
  case (3 l l' ls)
  have "split_nl (join_nl (l' # ls)) = l' # ls"
    using 3 by simp
  moreover have "CHR 0x0A \<notin> set l" using "3.prems"(2) by simp
  ultimately show ?case by (simp add: split_nl_line)
qed

lemma join_split_nl: "join_nl (split_nl s) = s"
proof (induction s)
  case Nil
  show ?case by simp
next
  case (Cons c s)
  obtain l0 ls where sp: "split_nl s = l0 # ls"
    using split_nl_nonempty [of s] by (cases "split_nl s") auto
  from Cons sp have j: "join_nl (l0 # ls) = s" by simp
  show ?case
  proof (cases "c = CHR 0x0A")
    case True
    then show ?thesis using sp j by (simp add: Let_def)
  next
    case False
    then show ?thesis using sp j by (cases ls) (auto simp: Let_def)
  qed
qed

lemma not_fence_line_empty: "\<not> fence_line []"
  by (simp add: fence_line_def strip_def startswith_def fence_def)

lemma pure_fence_is_fence_line:
  assumes "pure_fence_delimiter l" shows "fence_line l"
proof -
  define s where "s = strip l"
  define k where "k = length (takeWhile (\<lambda>c. c = CHR 0x60) s)"
  from assms have k: "3 \<le> k"
    by (simp add: pure_fence_delimiter_def Let_def s_def k_def)
  have "takeWhile (\<lambda>c. c = CHR 0x60) s = replicate k (CHR 0x60)"
    unfolding k_def
    by (rule replicate_length_same [symmetric]) (auto dest: set_takeWhileD)
  then have "take 3 (takeWhile (\<lambda>c. c = CHR 0x60) s) = replicate 3 (CHR 0x60)"
    using k by (simp add: min_def)
  moreover have "take 3 s = take 3 (takeWhile (\<lambda>c. c = CHR 0x60) s)"
  proof -
    have "s = takeWhile (\<lambda>c. c = CHR 0x60) s @ dropWhile (\<lambda>c. c = CHR 0x60) s" by simp
    then have "take 3 s = take 3 (takeWhile (\<lambda>c. c = CHR 0x60) s @ dropWhile (\<lambda>c. c = CHR 0x60) s)"
      by simp
    also have "\<dots> = take 3 (takeWhile (\<lambda>c. c = CHR 0x60) s)"
      using k unfolding k_def by (simp only: take_append) simp
    finally show ?thesis .
  qed
  ultimately have "take 3 s = replicate 3 (CHR 0x60)" by simp
  then show ?thesis
    by (simp add: fence_line_def startswith_def fence_def s_def numeral_3_eq_3)
qed

lemma fenced_lines:
  assumes "startswith (strip text) fence"
  shows "list_all (\<lambda>l. \<not> fence_line l) (split_nl (response_text_of text))"
proof -
  let ?kept = "filter (\<lambda>l. \<not> fence_line l) (split_nl (strip text))"
  have r: "response_text_of text = join_nl ?kept"
    using assms by (simp add: response_text_of_def strip_code_fence_def)
  show ?thesis
  proof (cases "?kept = []")
    case True
    then show ?thesis by (simp add: r not_fence_line_empty)
  next
    case False
    have "split_nl (join_nl ?kept) = ?kept"
      by (rule split_join_nl [OF False]) (auto dest: split_nl_no_newline)
    then show ?thesis by (simp add: r list_all_iff)
  qed
qed

section \<open>Claims about the transcription adapter\<close>

text \<open>
  C6, as the code has it: when the stripped response text starts with the fence token,
  every line whose stripped text starts with the fence token is removed and the other
  lines are joined again. No pure fence delimiter is among the lines kept, and no line of
  the text handed to the parser starts with the fence token. A response that, stripped,
  does not start with the fence token reaches the parser as the stripped text.
\<close>

theorem code_fence_lines_removed:
  "(startswith (strip text) fence \<longrightarrow>
      response_text_of text =
        join_nl (filter (\<lambda>l. \<not> fence_line l) (split_nl (strip text))) \<and>
      list_all (\<lambda>l. \<not> pure_fence_delimiter l)
        (filter (\<lambda>l. \<not> fence_line l) (split_nl (strip text))) \<and>
      list_all (\<lambda>l. \<not> fence_line l) (split_nl (response_text_of text))) \<and>
   (\<not> startswith (strip text) fence \<longrightarrow> response_text_of text = strip text)"
proof (intro conjI impI)
  assume "startswith (strip text) fence"
  then show "response_text_of text =
      join_nl (filter (\<lambda>l. \<not> fence_line l) (split_nl (strip text)))"
    by (simp add: response_text_of_def strip_code_fence_def)
next
  show "list_all (\<lambda>l. \<not> pure_fence_delimiter l)
      (filter (\<lambda>l. \<not> fence_line l) (split_nl (strip text)))"
    by (auto simp: list_all_iff dest: pure_fence_is_fence_line)
next
  assume "startswith (strip text) fence"
  then show "list_all (\<lambda>l. \<not> fence_line l) (split_nl (response_text_of text))"
    by (rule fenced_lines)
next
  assume "\<not> startswith (strip text) fence"
  then show "response_text_of text = strip text"
    by (simp add: response_text_of_def strip_code_fence_def)
qed

theorem code_fence_lines_removed_witness:
  "startswith (strip ('' ```json'' @ CHR 0x0A # ''{}'' @ CHR 0x0A # ''```'' @ [CHR 0x0A])) fence \<and>
   response_text_of ('' ```json'' @ CHR 0x0A # ''{}'' @ CHR 0x0A # ''```'' @ [CHR 0x0A]) = ''{}'' \<and>
   list_all (\<lambda>l. \<not> fence_line l)
     (split_nl (response_text_of ('' ```json'' @ CHR 0x0A # ''{}'' @ CHR 0x0A # ''```'' @ [CHR 0x0A]))) \<and>
   \<not> startswith (strip '' {} '') fence \<and> response_text_of '' {} '' = ''{}''"
proof -
  let ?t = "'' ```json'' @ CHR 0x0A # ''{}'' @ CHR 0x0A # ''```'' @ [CHR 0x0A]"
  have a: "startswith (strip ?t) fence" by code_simp
  have b: "response_text_of ?t = ''{}''" by code_simp
  have c: "\<not> startswith (strip '' {} '') fence" by code_simp
  have d: "strip '' {} '' = ''{}''" by code_simp
  from code_fence_lines_removed [of ?t] a
  have "list_all (\<lambda>l. \<not> fence_line l) (split_nl (response_text_of ?t))" by blast
  moreover from code_fence_lines_removed [of "'' {} ''"] c d
  have "response_text_of '' {} '' = ''{}''" by simp
  ultimately show ?thesis using a b c by blast
qed

theorem single_line_fence_counterexample:
  "startswith (strip ''```{}```'') fence \<and>
   split_nl (strip ''```{}```'') = [''```{}```''] \<and>
   \<not> pure_fence_delimiter ''```{}```'' \<and>
   strip_pure_fences (strip ''```{}```'') = ''```{}```'' \<and>
   response_text_of ''```{}```'' = []"
  by code_simp




section \<open>Claim about the conversion handler\<close>



lemma convert_save_failure:
  assumes "save_upload st (path_join tmp_dir upload_name) (path_join tmp_dir ''output'')
             (fs(tmp_dir \<mapsto> Dir)) = (Raised e, fs2)"
  shows "convert st tmp_dir upload_name video_name interval custom_prompt fs = (Propagated e, fs2)"
  using assms by (simp add: convert_def Let_def)



end
